theory Spec2Isabelle
  imports Main
begin

section \<open>The board of \<^verbatim>\<open>game.py\<close>\<close>

text \<open>
  The rules engine is the class \<^verbatim>\<open>Board\<close>. A cell of the grid holds \<^verbatim>\<open>None\<close> or a
  tuple \<^verbatim>\<open>(color, king_bool)\<close>, where the colour is one of the constants \<^verbatim>\<open>PLAYER\<close> and
  \<^verbatim>\<open>BOT\<close>. The grid \<^verbatim>\<open>self.board\<close> is a fixed 8 by 8 list of lists that the class reads
  and writes only through \<^verbatim>\<open>get\<close>, \<^verbatim>\<open>set\<close> and \<^verbatim>\<open>remove\<close>, each of which tests
  \<^verbatim>\<open>in_bounds\<close> before it indexes. The model keeps the grid as a map from coordinates
  to cell contents; the guards of the three accessors are written out, so a coordinate
  outside the grid is never looked up and never updated.
\<close>

datatype color = PLAYER | BOT

type_synonym piece = "color \<times> bool"

type_synonym cell = "int \<times> int"

type_synonym board = "cell \<Rightarrow> piece option"

type_synonym move = "int \<times> int \<times> cell list"

definition ROWS :: int where
  "ROWS = 8"

definition COLS :: int where
  "COLS = 8"

definition in_bounds :: "int \<Rightarrow> int \<Rightarrow> bool" where
  "in_bounds r c \<longleftrightarrow> 0 \<le> r \<and> r < ROWS \<and> 0 \<le> c \<and> c < COLS"

definition opponent :: "color \<Rightarrow> color" where
  "opponent color = (if color = PLAYER then BOT else PLAYER)"

text \<open>\<^verbatim>\<open>Board.__init__\<close> fills the grid with \<^verbatim>\<open>None\<close> and calls \<^verbatim>\<open>setup\<close>
  (\<open>setup_board\<close> here: the plain name is a command of the prover).\<close>

definition setup_board :: board where
  "setup_board = (\<lambda>(r, c).
     if in_bounds r c \<and> (r + c) mod 2 = 1 then
       (if r < 3 then Some (BOT, False)
        else if r > 4 then Some (PLAYER, False)
        else None)
     else None)"

definition get :: "board \<Rightarrow> int \<Rightarrow> int \<Rightarrow> piece option" where
  "get b r c = (if \<not> in_bounds r c then None else b (r, c))"

definition set_cell :: "board \<Rightarrow> int \<Rightarrow> int \<Rightarrow> piece option \<Rightarrow> board" where
  "set_cell b r c val = (if in_bounds r c then b((r, c) := val) else b)"

definition remove :: "board \<Rightarrow> int \<Rightarrow> int \<Rightarrow> board" where
  "remove b r c = (if in_bounds r c then b((r, c) := None) else b)"

text \<open>\<^verbatim>\<open>clone\<close> copies every row; on values the copy is the board itself.\<close>

definition clone :: "board \<Rightarrow> board" where
  "clone b = b"

text \<open>\<^verbatim>\<open>pieces\<close> walks the rows and, inside a row, the columns, in increasing order.\<close>

definition cell_pieces :: "board \<Rightarrow> color \<Rightarrow> int \<Rightarrow> int \<Rightarrow> (int \<times> int \<times> bool) list" where
  "cell_pieces b color r c =
     (case get b r c of
        None \<Rightarrow> []
      | Some p \<Rightarrow> if fst p = color then [(r, c, snd p)] else [])"

definition row_pieces :: "board \<Rightarrow> color \<Rightarrow> int \<Rightarrow> (int \<times> int \<times> bool) list" where
  "row_pieces b color r = concat (map (cell_pieces b color r) [0..COLS - 1])"

definition pieces :: "board \<Rightarrow> color \<Rightarrow> (int \<times> int \<times> bool) list" where
  "pieces b color = concat (map (row_pieces b color) [0..ROWS - 1])"

section \<open>Move generation\<close>

definition directions :: "color \<Rightarrow> bool \<Rightarrow> (int \<times> int) list" where
  "directions color king =
     (if king \<or> color = PLAYER then [(-1, -1), (-1, 1)] else []) @
     (if king \<or> color = BOT then [(1, -1), (1, 1)] else [])"

text \<open>
  The first loop of \<^verbatim>\<open>legal_moves_for\<close> appends to two lists, \<^verbatim>\<open>moves\<close> and
  \<^verbatim>\<open>captures\<close>, while it walks the directions. \<open>simple_moves\<close> is the first list and
  \<open>first_captures\<close> the second, each in the order of the directions.
\<close>

fun simple_moves :: "board \<Rightarrow> int \<Rightarrow> int \<Rightarrow> (int \<times> int) list \<Rightarrow> move list" where
  "simple_moves b r c [] = []"
| "simple_moves b r c ((dr, dc) # ds) =
     (if \<not> in_bounds (r + dr) (c + dc) then simple_moves b r c ds
      else if get b (r + dr) (c + dc) = None
        then (r + dr, c + dc, []) # simple_moves b r c ds
      else simple_moves b r c ds)"

fun first_captures :: "board \<Rightarrow> color \<Rightarrow> int \<Rightarrow> int \<Rightarrow> (int \<times> int) list \<Rightarrow> move list" where
  "first_captures b color r c [] = []"
| "first_captures b color r c ((dr, dc) # ds) =
     (if \<not> in_bounds (r + dr) (c + dc) then first_captures b color r c ds
      else (case get b (r + dr) (c + dc) of
              None \<Rightarrow> first_captures b color r c ds
            | Some q \<Rightarrow>
                if fst q = opponent color then
                  (if in_bounds (r + dr + dr) (c + dc + dc)
                      \<and> get b (r + dr + dr) (c + dc + dc) = None
                   then (r + dr + dr, c + dc + dc, [(r + dr, c + dc)])
                          # first_captures b color r c ds
                   else first_captures b color r c ds)
                else first_captures b color r c ds))"

text \<open>The loop of \<^verbatim>\<open>_recursive_captures\<close> that collects the jumps open at a cell.\<close>

fun jump_captures :: "board \<Rightarrow> color \<Rightarrow> int \<Rightarrow> int \<Rightarrow> (int \<times> int) list \<Rightarrow> move list" where
  "jump_captures b color r c [] = []"
| "jump_captures b color r c ((dr, dc) # ds) =
     (if in_bounds (r + dr) (c + dc) \<and> in_bounds (r + dr + dr) (c + dc + dc) then
        (case get b (r + dr) (c + dc) of
           None \<Rightarrow> jump_captures b color r c ds
         | Some q \<Rightarrow>
             if fst q = opponent color \<and> get b (r + dr + dr) (c + dc + dc) = None
             then (r + dr + dr, c + dc + dc, [(r + dr, c + dc)])
                    # jump_captures b color r c ds
             else jump_captures b color r c ds)
      else jump_captures b color r c ds)"

fun remove_all :: "board \<Rightarrow> cell list \<Rightarrow> board" where
  "remove_all b [] = b"
| "remove_all b ((cr, cc) # cs) = remove_all (remove b cr cc) cs"

text \<open>
  Both searches play a jump on a clone: the piece of \<open>(r, c)\<close> is written to the landing
  cell, the source is cleared, then every cell of the jump's captured list.
\<close>

definition simulate :: "board \<Rightarrow> int \<Rightarrow> int \<Rightarrow> move \<Rightarrow> board" where
  "simulate b r c cap =
     remove_all
       (remove (set_cell (clone b) (fst cap) (fst (snd cap)) (get (clone b) r c)) r c)
       (snd (snd cap))"

text \<open>
  What a jump contributes to the result: the longer chains when the search from the
  landing cell found some (\<^verbatim>\<open>if more\<close>), the jump alone otherwise.
\<close>

definition chains_of :: "move list \<Rightarrow> move \<Rightarrow> move list" where
  "chains_of more cap =
     (if more \<noteq> [] then
        map (\<lambda>extra. (fst extra, fst (snd extra), snd (snd cap) @ snd (snd extra))) more
      else [(fst cap, fst (snd cap), snd (snd cap))])"

subsection \<open>The capture search terminates\<close>

lemma get_set_cell:
  "get (set_cell b r c v) x y = (if in_bounds r c \<and> x = r \<and> y = c then v else get b x y)"
  by (simp add: get_def set_cell_def)

lemma get_remove:
  "get (remove b r c) x y = (if x = r \<and> y = c then None else get b x y)"
  by (simp add: get_def remove_def)

lemma get_remove_all:
  "get (remove_all b cs) x y = (if (x, y) \<in> set cs then None else get b x y)"
  by (induction b cs rule: remove_all.induct) (auto simp: get_remove)

lemma get_Some_in_bounds: "get b r c = Some p \<Longrightarrow> in_bounds r c"
  by (simp add: get_def split: if_splits)

lemma jump_captures_mem:
  "cap \<in> set (jump_captures b color r c ds) \<Longrightarrow>
     \<exists>dr dc k. (dr, dc) \<in> set ds \<and> cap = (r + dr + dr, c + dc + dc, [(r + dr, c + dc)])
       \<and> in_bounds (r + dr + dr) (c + dc + dc)
       \<and> get b (r + dr) (c + dc) = Some (opponent color, k)
       \<and> get b (r + dr + dr) (c + dc + dc) = None"
proof (induction ds)
  case Nil
  then show ?case by simp
next
  case (Cons d ds)
  obtain dr dc where d: "d = (dr, dc)" by (cases d)
  from Cons show ?case unfolding d
    by (fastforce split: if_splits option.splits)
qed

lemma directions_unit:
  "(dr, dc) \<in> set (directions color king) \<Longrightarrow> (dr = 1 \<or> dr = -1) \<and> (dc = 1 \<or> dc = -1)"
  by (auto simp: directions_def split: if_splits)

lemma opponent_neq: "opponent color \<noteq> color"
  by (cases color) (simp_all add: opponent_def)

lemma sum_list_one_less:
  fixes f g :: "'a \<Rightarrow> nat"
  shows "x \<in> set xs \<Longrightarrow> (\<And>y. f y \<le> g y) \<Longrightarrow> f x < g x
    \<Longrightarrow> sum_list (map f xs) < sum_list (map g xs)"
proof (induction xs)
  case Nil
  then show ?case by simp
next
  case (Cons a xs)
  have le: "sum_list (map f xs) \<le> sum_list (map g xs)"
    by (rule sum_list_mono) (simp add: Cons.prems(2))
  show ?case
  proof (cases "x = a")
    case True
    with Cons.prems(3) le show ?thesis by simp
  next
    case False
    with Cons.prems have "x \<in> set xs" by simp
    from Cons.IH[OF this Cons.prems(2) Cons.prems(3)] Cons.prems(2)[of a]
    show ?thesis by simp
  qed
qed

text \<open>A board that holds no more pieces of a colour in any cell, and fewer in one cell
  of the grid, has a shorter \<open>pieces\<close> list for that colour.\<close>

lemma length_pieces_less:
  assumes le: "\<And>x y. length (cell_pieces b' col x y) \<le> length (cell_pieces b col x y)"
    and ib: "in_bounds r0 c0"
    and lt: "length (cell_pieces b' col r0 c0) < length (cell_pieces b col r0 c0)"
  shows "length (pieces b' col) < length (pieces b col)"
proof -
  have r0: "r0 \<in> set [0..ROWS - 1]" and c0: "c0 \<in> set [0..COLS - 1]"
    using ib by (auto simp: in_bounds_def)
  have row_le: "\<And>x. length (row_pieces b' col x) \<le> length (row_pieces b col x)"
    unfolding row_pieces_def length_concat map_map
    by (rule sum_list_mono) (simp add: le)
  have row_lt: "length (row_pieces b' col r0) < length (row_pieces b col r0)"
    unfolding row_pieces_def length_concat map_map
    using sum_list_one_less[OF c0, of "\<lambda>y. length (cell_pieces b' col r0 y)"
        "\<lambda>y. length (cell_pieces b col r0 y)"] le lt
    by (simp add: comp_def)
  show ?thesis
    unfolding pieces_def length_concat map_map
    using sum_list_one_less[OF r0, of "\<lambda>x. length (row_pieces b' col x)"
        "\<lambda>x. length (row_pieces b col x)"] row_le row_lt
    by (simp add: comp_def)
qed

text \<open>The number of pieces that oppose the piece of a cell (none when the cell is empty).\<close>

definition opponent_count :: "board \<Rightarrow> int \<Rightarrow> int \<Rightarrow> nat" where
  "opponent_count b r c =
     (case get b r c of None \<Rightarrow> 0 | Some p \<Rightarrow> length (pieces b (opponent (fst p))))"

lemma simulate_jump_get:
  "get (simulate b r c (jr, jc, [(nr, nc)])) x y =
     (if (x, y) = (nr, nc) \<or> (x, y) = (r, c) then None
      else if in_bounds jr jc \<and> (x, y) = (jr, jc) then get b r c
      else get b x y)"
  by (simp add: simulate_def clone_def get_remove_all get_remove get_set_cell)

lemma simulate_landing:
  assumes p: "get b r c = Some p"
    and d: "(dr, dc) \<in> set (directions color king)"
    and ib: "in_bounds (r + dr + dr) (c + dc + dc)"
  shows "get (simulate b r c (r + dr + dr, c + dc + dc, [(r + dr, c + dc)]))
           (r + dr + dr) (c + dc + dc) = Some p"
  using directions_unit[OF d] ib p unfolding simulate_jump_get by auto

lemma simulate_pieces_less:
  assumes p: "get b r c = Some p"
    and opp: "get b nr nc = Some (opponent (fst p), k)"
  shows "length (pieces (simulate b r c (jr, jc, [(nr, nc)])) (opponent (fst p)))
           < length (pieces b (opponent (fst p)))"
proof -
  let ?b' = "simulate b r c (jr, jc, [(nr, nc)])"
  have le: "\<And>x y. length (cell_pieces ?b' (opponent (fst p)) x y)
               \<le> length (cell_pieces b (opponent (fst p)) x y)"
    unfolding cell_pieces_def simulate_jump_get using p opponent_neq[of "fst p"]
    by (auto split: option.splits)
  have lt: "length (cell_pieces ?b' (opponent (fst p)) nr nc)
               < length (cell_pieces b (opponent (fst p)) nr nc)"
    unfolding cell_pieces_def simulate_jump_get using opp by simp
  show ?thesis
    by (rule length_pieces_less[OF le get_Some_in_bounds[OF opp] lt])
qed

lemma simulate_count_less:
  assumes p: "get b r c = Some p"
    and cap: "cap \<in> set (jump_captures b (fst p) r c (directions (fst p) (snd p)))"
  shows "opponent_count (simulate b r c cap) (fst cap) (fst (snd cap)) < opponent_count b r c"
proof -
  from jump_captures_mem[OF cap] obtain dr dc k where
    d: "(dr, dc) \<in> set (directions (fst p) (snd p))"
    and c: "cap = (r + dr + dr, c + dc + dc, [(r + dr, c + dc)])"
    and ib: "in_bounds (r + dr + dr) (c + dc + dc)"
    and opp: "get b (r + dr) (c + dc) = Some (opponent (fst p), k)"
    by blast
  show ?thesis
    using simulate_landing[OF p d ib] simulate_pieces_less[OF p opp] p
    unfolding opponent_count_def c by simp
qed

subsection \<open>\<^verbatim>\<open>_recursive_captures\<close> and \<^verbatim>\<open>legal_moves_for\<close>\<close>

function recursive_captures :: "board \<Rightarrow> int \<Rightarrow> int \<Rightarrow> move list" where
  "recursive_captures b r c =
     (case get b r c of
        None \<Rightarrow> []
      | Some p \<Rightarrow>
          concat (map
            (\<lambda>cap. chains_of (recursive_captures (simulate b r c cap) (fst cap) (fst (snd cap))) cap)
            (jump_captures b (fst p) r c (directions (fst p) (snd p)))))"
  by pat_completeness auto
termination
  by (relation "measure (\<lambda>(b, r, c). opponent_count b r c)") (auto simp: simulate_count_less)

declare recursive_captures.simps [simp del]

definition legal_moves_for :: "board \<Rightarrow> int \<Rightarrow> int \<Rightarrow> move list" where
  "legal_moves_for b r c =
     (case get b r c of
        None \<Rightarrow> []
      | Some p \<Rightarrow>
          (let moves = simple_moves b r c (directions (fst p) (snd p));
               captures = first_captures b (fst p) r c (directions (fst p) (snd p));
               full_captures = concat (map
                 (\<lambda>cap. chains_of (recursive_captures (simulate b r c cap) (fst cap) (fst (snd cap))) cap)
                 captures)
           in if full_captures \<noteq> [] then full_captures else moves))"

section \<open>Applying a move, side-wide queries, the end of the game\<close>

text \<open>
  \<^verbatim>\<open>apply_move\<close> reads \<^verbatim>\<open>p[0]\<close> after it has moved the cell contents: on an empty source
  cell that subscript raises \<^verbatim>\<open>TypeError\<close>, and the call has no result.
\<close>

datatype error = TypeError

definition apply_move ::
  "board \<Rightarrow> int \<Rightarrow> int \<Rightarrow> int \<Rightarrow> int \<Rightarrow> cell list \<Rightarrow> error + board" where
  "apply_move b r c to_r to_c captured =
     (let p = get b r c;
          b1 = remove_all (remove (set_cell b to_r to_c p) r c) captured
      in case p of
           None \<Rightarrow> Inl TypeError
         | Some q \<Rightarrow>
             if (fst q = PLAYER \<and> to_r = 0) \<or> (fst q = BOT \<and> to_r = ROWS - 1)
             then Inr (set_cell b1 to_r to_c (Some (fst q, True)))
             else Inr b1)"


definition game_over :: "board \<Rightarrow> bool \<times> string" where
  "game_over b =
     (let p_count = length (pieces b PLAYER);
          b_count = length (pieces b BOT)
      in if p_count = 0 then (True, ''Bot wins'')
         else if b_count = 0 then (True, ''Player wins'')
         else if \<not> list_ex (\<lambda>(r, c, k). legal_moves_for b r c \<noteq> []) (pieces b PLAYER)
           then (True, ''Bot wins (no moves for player)'')
         else if \<not> list_ex (\<lambda>(r, c, k). legal_moves_for b r c \<noteq> []) (pieces b BOT)
           then (True, ''Player wins (no moves for bot)'')
         else (False, ''''))"

section \<open>What the properties are stated with\<close>

subsection \<open>Stuck sides\<close>

text \<open>Every piece of a side has an empty \<^verbatim>\<open>legal_moves_for\<close> result.\<close>

definition all_stuck :: "board \<Rightarrow> color \<Rightarrow> bool" where
  "all_stuck b color = list_all (\<lambda>(r, c, k). legal_moves_for b r c = []) (pieces b color)"

subsection \<open>The position at the end of a chain\<close>


subsection \<open>The search with the directions fixed at the start\<close>

text \<open>
  The search as the specification words it: the direction list is computed once, from
  the piece as it stands before the move, and handed down unchanged to every later jump
  of the chain; the piece written to a landing cell is that same piece. The lookup of the
  cell and the test of its contents stay as in \<^verbatim>\<open>_recursive_captures\<close>.
\<close>

definition simulate_frozen :: "piece \<Rightarrow> board \<Rightarrow> int \<Rightarrow> int \<Rightarrow> move \<Rightarrow> board" where
  "simulate_frozen p b r c cap =
     remove_all (remove (set_cell b (fst cap) (fst (snd cap)) (Some p)) r c) (snd (snd cap))"

lemma simulate_frozen_get:
  "get (simulate_frozen p b r c (jr, jc, [(nr, nc)])) x y =
     (if (x, y) = (nr, nc) \<or> (x, y) = (r, c) then None
      else if in_bounds jr jc \<and> (x, y) = (jr, jc) then Some p
      else get b x y)"
  by (simp add: simulate_frozen_def get_remove_all get_remove get_set_cell)

lemma simulate_frozen_pieces_less:
  assumes cap: "cap \<in> set (jump_captures b (fst p) r c ds)"
  shows "length (pieces (simulate_frozen p b r c cap) (opponent (fst p)))
           < length (pieces b (opponent (fst p)))"
proof -
  from jump_captures_mem[OF cap] obtain dr dc k where
    c: "cap = (r + dr + dr, c + dc + dc, [(r + dr, c + dc)])"
    and opp: "get b (r + dr) (c + dc) = Some (opponent (fst p), k)"
    by blast
  let ?b' = "simulate_frozen p b r c cap"
  have le: "\<And>x y. length (cell_pieces ?b' (opponent (fst p)) x y)
               \<le> length (cell_pieces b (opponent (fst p)) x y)"
    unfolding c cell_pieces_def simulate_frozen_get using opponent_neq[of "fst p"]
    by (auto split: option.splits)
  have lt: "length (cell_pieces ?b' (opponent (fst p)) (r + dr) (c + dc))
               < length (cell_pieces b (opponent (fst p)) (r + dr) (c + dc))"
    unfolding c cell_pieces_def simulate_frozen_get using opp by simp
  show ?thesis
    by (rule length_pieces_less[OF le get_Some_in_bounds[OF opp] lt])
qed

function chains_frozen :: "(int \<times> int) list \<Rightarrow> piece \<Rightarrow> board \<Rightarrow> int \<Rightarrow> int \<Rightarrow> move list" where
  "chains_frozen ds p b r c =
     (case get b r c of
        None \<Rightarrow> []
      | Some q \<Rightarrow>
          concat (map
            (\<lambda>cap. chains_of (chains_frozen ds p (simulate_frozen p b r c cap) (fst cap) (fst (snd cap))) cap)
            (jump_captures b (fst p) r c ds)))"
  by pat_completeness auto
termination
  by (relation "measure (\<lambda>(ds, p, b, r, c). length (pieces b (opponent (fst p))))")
    (auto simp: simulate_frozen_pieces_less)

declare chains_frozen.simps [simp del]

definition legal_moves_frozen :: "board \<Rightarrow> int \<Rightarrow> int \<Rightarrow> move list" where
  "legal_moves_frozen b r c =
     (case get b r c of
        None \<Rightarrow> []
      | Some p \<Rightarrow>
          (let ds = directions (fst p) (snd p);
               moves = simple_moves b r c ds;
               full_captures = chains_frozen ds p b r c
           in if full_captures \<noteq> [] then full_captures else moves))"

subsection \<open>The search with a bound on its depth\<close>

text \<open>
  The two searches again, with a counter of the nested \<^verbatim>\<open>_recursive_captures\<close> calls
  that are still allowed: a call made when none is left has no result.
\<close>

fun recursive_captures_fuel :: "nat \<Rightarrow> board \<Rightarrow> int \<Rightarrow> int \<Rightarrow> move list option" where
  "recursive_captures_fuel 0 b r c = None"
| "recursive_captures_fuel (Suc n) b r c =
     (case get b r c of
        None \<Rightarrow> Some []
      | Some p \<Rightarrow>
          map_option concat (those (map
            (\<lambda>cap. map_option (\<lambda>more. chains_of more cap)
               (recursive_captures_fuel n (simulate b r c cap) (fst cap) (fst (snd cap))))
            (jump_captures b (fst p) r c (directions (fst p) (snd p))))))"

definition legal_moves_for_fuel :: "nat \<Rightarrow> board \<Rightarrow> int \<Rightarrow> int \<Rightarrow> move list option" where
  "legal_moves_for_fuel n b r c =
     (case get b r c of
        None \<Rightarrow> Some []
      | Some p \<Rightarrow>
          (let moves = simple_moves b r c (directions (fst p) (snd p));
               captures = first_captures b (fst p) r c (directions (fst p) (snd p))
           in map_option (\<lambda>full_captures. if full_captures \<noteq> [] then full_captures else moves)
                (map_option concat (those (map
                   (\<lambda>cap. map_option (\<lambda>more. chains_of more cap)
                      (recursive_captures_fuel n (simulate b r c cap) (fst cap) (fst (snd cap))))
                   captures)))))"

subsection \<open>Sequences of calls\<close>

text \<open>
  A game is a list of \<^verbatim>\<open>apply_move\<close> calls, each given the source cell, the
  destination and the captured list. \<open>play\<close> runs the calls in order and has a result
  only when every move applied is one that \<^verbatim>\<open>legal_moves_for\<close> returns for its source
  cell on the board of that moment.
\<close>

type_synonym step = "int \<times> int \<times> int \<times> int \<times> cell list"

fun play :: "board \<Rightarrow> step list \<Rightarrow> board option" where
  "play b [] = Some b"
| "play b ((r, c, to_r, to_c, captured) # ms) =
     (if (to_r, to_c, captured) \<in> set (legal_moves_for b r c) then
        (case apply_move b r c to_r to_c captured of
           Inl e \<Rightarrow> None
         | Inr b' \<Rightarrow> play b' ms)
      else None)"

text \<open>Every occupied cell of the grid is a dark square.\<close>

definition dark_only :: "board \<Rightarrow> bool" where
  "dark_only b \<longleftrightarrow> (\<forall>r c. get b r c \<noteq> None \<longrightarrow> (r + c) mod 2 = 1)"

text \<open>
  A piece has no identity but its cell. \<open>follow\<close> gives the cell of a piece after one
  call: the destination when the call moves it, no cell when the call captures it or
  writes another piece over it, its own cell otherwise. \<open>trace\<close> runs a list of calls,
  any calls at all, and follows one piece; it has a result while every call returns and
  the piece is followed.
\<close>

fun follow :: "cell \<Rightarrow> step \<Rightarrow> cell option" where
  "follow pos (r, c, to_r, to_c, captured) =
     (if pos = (r, c) then Some (to_r, to_c)
      else if pos = (to_r, to_c) \<or> pos \<in> set captured then None
      else Some pos)"

fun trace :: "board \<Rightarrow> cell \<Rightarrow> step list \<Rightarrow> (board \<times> cell) option" where
  "trace b pos [] = Some (b, pos)"
| "trace b pos ((r, c, to_r, to_c, captured) # ms) =
     (case apply_move b r c to_r to_c captured of
        Inl e \<Rightarrow> None
      | Inr b' \<Rightarrow>
          (case follow pos (r, c, to_r, to_c, captured) of
             None \<Rightarrow> None
           | Some pos' \<Rightarrow> trace b' pos' ms))"

subsection \<open>Example boards\<close>

text \<open>Boards for the examples: the empty grid, filled by \<^verbatim>\<open>set\<close>.\<close>

definition empty_board :: board where
  "empty_board = (\<lambda>_. None)"

fun place_all :: "board \<Rightarrow> (int \<times> int \<times> piece) list \<Rightarrow> board" where
  "place_all b [] = b"
| "place_all b ((r, c, p) # ps) = place_all (set_cell b r c (Some p)) ps"

definition double_jump_board :: board where
  "double_jump_board = place_all empty_board
     [(7, 0, (PLAYER, False)), (6, 1, (BOT, False)), (4, 3, (BOT, False))]"


definition back_rank_board :: board where
  "back_rank_board = place_all empty_board
     [(2, 1, (PLAYER, False)), (1, 2, (BOT, False)), (1, 4, (BOT, False))]"

definition back_rank_king_board :: board where
  "back_rank_king_board = place_all empty_board
     [(2, 1, (PLAYER, True)), (1, 2, (BOT, False)), (1, 4, (BOT, False))]"



definition lone_bot_board :: board where
  "lone_bot_board = place_all empty_board [(3, 4, (BOT, False))]"

definition lone_stuck_player_board :: board where
  "lone_stuck_player_board = place_all empty_board [(0, 1, (PLAYER, False))]"

definition bot_stuck_board :: board where
  "bot_stuck_board = place_all empty_board [(7, 0, (BOT, False)), (5, 2, (PLAYER, False))]"

definition player_stuck_board :: board where
  "player_stuck_board = place_all empty_board [(0, 1, (PLAYER, False)), (5, 2, (BOT, False))]"

text \<open>Twelve men, none of which can move: the four of the Player stand on their own
  back row behind two full rows of the Bot's.\<close>

definition blocked_board :: board where
  "blocked_board = place_all empty_board
     [(5, 0, (BOT, False)), (5, 2, (BOT, False)), (5, 4, (BOT, False)), (5, 6, (BOT, False)),
      (6, 1, (BOT, False)), (6, 3, (BOT, False)), (6, 5, (BOT, False)), (6, 7, (BOT, False)),
      (7, 0, (PLAYER, False)), (7, 2, (PLAYER, False)), (7, 4, (PLAYER, False)),
      (7, 6, (PLAYER, False))]"

definition king_board :: board where
  "king_board = place_all empty_board [(1, 2, (PLAYER, True)), (5, 4, (BOT, False))]"

definition opening_steps :: "step list" where
  "opening_steps = [(5, 0, 4, 1, []), (2, 3, 3, 2, []), (4, 1, 2, 3, [(3, 2)])]"

definition king_steps :: "step list" where
  "king_steps = [(1, 2, 0, 1, []), (5, 4, 6, 5, []), (0, 1, 1, 0, [])]"

section \<open>Facts about the search\<close>

lemma chains_nonempty: "chains_of more cap \<noteq> []"
  by (simp add: chains_of_def)

lemma chains_captured:
  "m \<in> set (chains_of more cap) \<Longrightarrow> snd (snd cap) \<noteq> [] \<Longrightarrow> snd (snd m) \<noteq> []"
  by (auto simp: chains_of_def split: if_splits)


lemma concat_chains_nonempty:
  "caps \<noteq> [] \<Longrightarrow> concat (map (\<lambda>cap. chains_of (f cap) cap) caps) \<noteq> []"
  by (cases caps) (simp_all add: chains_nonempty)

lemma first_captures_captured:
  "cap \<in> set (first_captures b color r c ds) \<Longrightarrow> snd (snd cap) \<noteq> []"
proof (induction ds)
  case Nil
  then show ?case by simp
next
  case (Cons d ds)
  obtain dr dc where d: "d = (dr, dc)" by (cases d)
  from Cons show ?case unfolding d
    by (auto split: if_splits option.splits)
qed

lemma simple_moves_captured:
  "m \<in> set (simple_moves b r c ds) \<Longrightarrow> snd (snd m) = []"
proof (induction ds)
  case Nil
  then show ?case by simp
next
  case (Cons d ds)
  obtain dr dc where d: "d = (dr, dc)" by (cases d)
  from Cons show ?case unfolding d
    by (auto split: if_splits)
qed

lemma simple_moves_mem:
  "m \<in> set (simple_moves b r c ds) \<Longrightarrow> \<exists>dr dc. (dr, dc) \<in> set ds \<and> m = (r + dr, c + dc, [])"
proof (induction ds)
  case Nil
  then show ?case by simp
next
  case (Cons d ds)
  obtain dr dc where d: "d = (dr, dc)" by (cases d)
  from Cons show ?case unfolding d
    by (fastforce split: if_splits)
qed

lemma first_captures_eq_jump_captures:
  "first_captures b color r c ds = jump_captures b color r c ds"
proof (induction ds)
  case Nil
  then show ?case by simp
next
  case (Cons d ds)
  obtain dr dc where d: "d = (dr, dc)" by (cases d)
  from Cons show ?case unfolding d
    by (auto simp: get_def split: option.splits)
qed


lemma recursive_captures_mem:
  assumes "m \<in> set (recursive_captures b r c)"
  shows "\<exists>p cap. get b r c = Some p
      \<and> cap \<in> set (jump_captures b (fst p) r c (directions (fst p) (snd p)))
      \<and> m \<in> set (chains_of (recursive_captures (simulate b r c cap) (fst cap) (fst (snd cap))) cap)"
proof (cases "get b r c")
  case None
  with assms show ?thesis unfolding recursive_captures.simps[of b r c] by simp
next
  case (Some p)
  with assms show ?thesis unfolding recursive_captures.simps[of b r c] by fastforce
qed


lemma legal_moves_for_via_search:
  assumes p: "get b r c = Some p"
  shows "legal_moves_for b r c =
     (if recursive_captures b r c \<noteq> [] then recursive_captures b r c
      else simple_moves b r c (directions (fst p) (snd p)))"
  using p
  by (simp add: legal_moves_for_def Let_def first_captures_eq_jump_captures
      recursive_captures.simps[of b r c])


lemma apply_move_get:
  assumes "apply_move b r c to_r to_c captured = Inr b'"
  shows "\<exists>q. get b r c = Some q \<and>
     (\<forall>x y. get b' x y =
       (if in_bounds to_r to_c \<and> (x, y) = (to_r, to_c)
           \<and> ((fst q = PLAYER \<and> to_r = 0) \<or> (fst q = BOT \<and> to_r = ROWS - 1))
          then Some (fst q, True)
        else if (x, y) \<in> set captured \<or> (x, y) = (r, c) then None
        else if in_bounds to_r to_c \<and> (x, y) = (to_r, to_c) then Some q
        else get b x y))"
  using assms
  by (cases "get b r c")
    (auto simp: apply_move_def Let_def get_set_cell get_remove_all get_remove split: if_splits)

section \<open>Mandatory capture at a cell\<close>

text \<open>
  C1. For every board and every occupied cell: when the first loop of
  \<^verbatim>\<open>legal_moves_for\<close> finds a capture (a single jump is enough), the result is not
  empty, every move of it has a non-empty captured list and none of them is one of the
  simple moves found; when the loop finds no capture, the result is the list of simple
  moves.
\<close>

theorem legal_moves_capture_mandatory:
  assumes p: "get b r c = Some p"
  shows "(first_captures b (fst p) r c (directions (fst p) (snd p)) \<noteq> [] \<longrightarrow>
            legal_moves_for b r c \<noteq> []
            \<and> (\<forall>m \<in> set (legal_moves_for b r c).
                  snd (snd m) \<noteq> []
                  \<and> m \<notin> set (simple_moves b r c (directions (fst p) (snd p)))))
       \<and> (first_captures b (fst p) r c (directions (fst p) (snd p)) = [] \<longrightarrow>
            legal_moves_for b r c = simple_moves b r c (directions (fst p) (snd p)))"
proof (intro conjI impI)
  let ?caps = "first_captures b (fst p) r c (directions (fst p) (snd p))"
  let ?full = "concat (map
       (\<lambda>cap. chains_of (recursive_captures (simulate b r c cap) (fst cap) (fst (snd cap))) cap)
       ?caps)"
  {
    assume ne: "?caps \<noteq> []"
    have full: "?full \<noteq> []" by (rule concat_chains_nonempty[OF ne])
    then have eq: "legal_moves_for b r c = ?full"
      using p by (simp add: legal_moves_for_def Let_def)
    show "legal_moves_for b r c \<noteq> []" using eq full by simp
    show "\<forall>m \<in> set (legal_moves_for b r c).
            snd (snd m) \<noteq> [] \<and> m \<notin> set (simple_moves b r c (directions (fst p) (snd p)))"
    proof
      fix m assume "m \<in> set (legal_moves_for b r c)"
      then obtain cap where "cap \<in> set ?caps"
        and "m \<in> set (chains_of (recursive_captures (simulate b r c cap) (fst cap) (fst (snd cap))) cap)"
        unfolding eq by auto
      then have "snd (snd m) \<noteq> []"
        using chains_captured first_captures_captured by blast
      then show "snd (snd m) \<noteq> [] \<and> m \<notin> set (simple_moves b r c (directions (fst p) (snd p)))"
        using simple_moves_captured by blast
    qed
  }
  {
    assume "?caps = []"
    then show "legal_moves_for b r c = simple_moves b r c (directions (fst p) (snd p))"
      using p by (simp add: legal_moves_for_def Let_def)
  }
qed

theorem legal_moves_capture_mandatory_witness:
  "get double_jump_board 7 0 = Some (PLAYER, False)
   \<and> first_captures double_jump_board PLAYER 7 0 (directions PLAYER False) = [(5, 2, [(6, 1)])]
   \<and> simple_moves double_jump_board 7 0 (directions PLAYER False) = []
   \<and> legal_moves_for double_jump_board 7 0 = [(3, 4, [(6, 1), (4, 3)])]
   \<and> list_all (\<lambda>m. snd (snd m) \<noteq> []) (legal_moves_for double_jump_board 7 0)
   \<and> get setup_board 5 0 = Some (PLAYER, False)
   \<and> first_captures setup_board PLAYER 5 0 (directions PLAYER False) = []
   \<and> legal_moves_for setup_board 5 0 = [(4, 1, [])]"
proof -
  have a: "get double_jump_board 7 0 = Some (PLAYER, False)" by code_simp
  have b: "first_captures double_jump_board PLAYER 7 0 (directions PLAYER False)
             = [(5, 2, [(6, 1)])]"
    by code_simp
  have c: "simple_moves double_jump_board 7 0 (directions PLAYER False) = []" by code_simp
  have d: "legal_moves_for double_jump_board 7 0 = [(3, 4, [(6, 1), (4, 3)])]" by code_simp
  have e: "get setup_board 5 0 = Some (PLAYER, False)" by code_simp
  have f: "first_captures setup_board PLAYER 5 0 (directions PLAYER False) = []" by code_simp
  have g: "simple_moves setup_board 5 0 (directions PLAYER False) = [(4, 1, [])]" by code_simp
  from legal_moves_capture_mandatory[OF a] b
  have h: "\<forall>m \<in> set (legal_moves_for double_jump_board 7 0). snd (snd m) \<noteq> []" by simp
  from legal_moves_capture_mandatory[OF e] f g
  have i: "legal_moves_for setup_board 5 0 = [(4, 1, [])]" by simp
  from a b c d e f h i show ?thesis by (simp add: list_all_iff)
qed

section \<open>Capture chains are maximal\<close>







section \<open>The king flag during the capture search\<close>

lemma simulate_eq_frozen:
  "get b r c = Some p \<Longrightarrow> simulate b r c cap = simulate_frozen p b r c cap"
  by (simp add: simulate_def simulate_frozen_def clone_def)

lemma recursive_captures_frozen:
  "get b r c = Some p \<Longrightarrow>
     recursive_captures b r c = chains_frozen (directions (fst p) (snd p)) p b r c"
proof (induction b r c arbitrary: p rule: recursive_captures.induct)
  case (1 b r c)
  let ?ds = "directions (fst p) (snd p)"
  let ?caps = "jump_captures b (fst p) r c ?ds"
  have step: "\<And>cap. cap \<in> set ?caps \<Longrightarrow>
      recursive_captures (simulate b r c cap) (fst cap) (fst (snd cap))
      = chains_frozen ?ds p (simulate_frozen p b r c cap) (fst cap) (fst (snd cap))"
  proof -
    fix cap assume cap: "cap \<in> set ?caps"
    from jump_captures_mem[OF cap] obtain dr dc k where
      d: "(dr, dc) \<in> set ?ds"
      and c: "cap = (r + dr + dr, c + dc + dc, [(r + dr, c + dc)])"
      and ib: "in_bounds (r + dr + dr) (c + dc + dc)"
      by blast
    have here: "get (simulate b r c cap) (fst cap) (fst (snd cap)) = Some p"
      using simulate_landing[OF "1.prems" d ib] unfolding c by simp
    from "1.IH"[OF "1.prems" cap here]
    show "recursive_captures (simulate b r c cap) (fst cap) (fst (snd cap))
      = chains_frozen ?ds p (simulate_frozen p b r c cap) (fst cap) (fst (snd cap))"
      by (simp add: simulate_eq_frozen[OF "1.prems"])
  qed
  show ?case
    using "1.prems" step
    by (subst recursive_captures.simps, subst chains_frozen.simps) (simp cong: map_cong)
qed

lemma chains_frozen_rows:
  "(\<And>e. e \<in> set ds \<Longrightarrow> fst e = d) \<Longrightarrow> m \<in> set (chains_frozen ds p b r c)
    \<Longrightarrow> fst m = r + 2 * d * int (length (snd (snd m)))"
proof (induction ds p b r c arbitrary: m rule: chains_frozen.induct)
  case (1 ds p b r c)
  from "1.prems"(2) obtain q cap where q: "get b r c = Some q"
    and cap: "cap \<in> set (jump_captures b (fst p) r c ds)"
    and m: "m \<in> set (chains_of (chains_frozen ds p (simulate_frozen p b r c cap) (fst cap)
               (fst (snd cap))) cap)"
    unfolding chains_frozen.simps[of ds p b r c] by (cases "get b r c") auto
  from jump_captures_mem[OF cap] obtain dr dc where
    d: "(dr, dc) \<in> set ds"
    and c: "cap = (r + dr + dr, c + dc + dc, [(r + dr, c + dc)])"
    by blast
  from "1.prems"(1)[OF d] have dr: "dr = d" by simp
  show ?case
  proof (cases "chains_frozen ds p (simulate_frozen p b r c cap) (fst cap) (fst (snd cap)) = []")
    case True
    with m have "m = cap" by (simp add: chains_of_def)
    then show ?thesis unfolding c dr by simp
  next
    case False
    with m obtain extra where
      ex: "extra \<in> set (chains_frozen ds p (simulate_frozen p b r c cap) (fst cap) (fst (snd cap)))"
      and me: "m = (fst extra, fst (snd extra), snd (snd cap) @ snd (snd extra))"
      by (auto simp: chains_of_def)
    from "1.IH"[OF q cap "1.prems"(1) ex]
    have "fst extra = fst cap + 2 * d * int (length (snd (snd extra)))" by simp
    then show ?thesis unfolding me c dr by (simp add: algebra_simps)
  qed
qed

text \<open>
  C3. The capture search takes the directions of every jump of a chain from the piece as
  it stood at the start of the move: the clones carry the piece unchanged (no promotion),
  so \<^verbatim>\<open>legal_moves_for\<close> is the search with the direction list fixed at the start. For a
  man, every jump of a returned chain therefore goes forward two rows: a man that reaches
  the back rank inside a chain does not turn back.
\<close>

theorem chain_search_keeps_initial_king_flag:
  assumes p: "get b r c = Some p"
  shows "legal_moves_for b r c = legal_moves_frozen b r c
     \<and> (\<not> snd p \<longrightarrow> (\<forall>m \<in> set (legal_moves_for b r c). snd (snd m) \<noteq> [] \<longrightarrow>
           fst m = r + 2 * (if fst p = PLAYER then - 1 else 1) * int (length (snd (snd m)))))"
proof
  have eq: "recursive_captures b r c = chains_frozen (directions (fst p) (snd p)) p b r c"
    by (rule recursive_captures_frozen[OF p])
  show frozen: "legal_moves_for b r c = legal_moves_frozen b r c"
    using p by (simp add: legal_moves_for_via_search[OF p] legal_moves_frozen_def Let_def eq)
  show "\<not> snd p \<longrightarrow> (\<forall>m \<in> set (legal_moves_for b r c). snd (snd m) \<noteq> [] \<longrightarrow>
           fst m = r + 2 * (if fst p = PLAYER then - 1 else 1) * int (length (snd (snd m))))"
  proof (intro impI ballI)
    fix m
    assume man: "\<not> snd p" and m: "m \<in> set (legal_moves_for b r c)" and ne: "snd (snd m) \<noteq> []"
    have "m \<in> set (chains_frozen (directions (fst p) (snd p)) p b r c)"
      using m ne simple_moves_captured[of m b r c "directions (fst p) (snd p)"]
      unfolding legal_moves_for_via_search[OF p] eq by (auto split: if_splits)
    moreover have "\<And>e. e \<in> set (directions (fst p) (snd p))
        \<Longrightarrow> fst e = (if fst p = PLAYER then - 1 else 1)"
      using man by (cases "fst p") (auto simp: directions_def)
    ultimately show "fst m = r + 2 * (if fst p = PLAYER then - 1 else 1) * int (length (snd (snd m)))"
      by (rule chains_frozen_rows[rotated])
  qed
qed

theorem chain_search_keeps_initial_king_flag_witness:
  "get back_rank_board 2 1 = Some (PLAYER, False)
   \<and> legal_moves_for back_rank_board 2 1 = [(0, 3, [(1, 2)])]
   \<and> legal_moves_frozen back_rank_board 2 1 = [(0, 3, [(1, 2)])]
   \<and> get back_rank_king_board 2 1 = Some (PLAYER, True)
   \<and> legal_moves_for back_rank_king_board 2 1 = [(2, 5, [(1, 2), (1, 4)])]"
proof -
  have a: "get back_rank_board 2 1 = Some (PLAYER, False)" by code_simp
  have b: "legal_moves_for back_rank_board 2 1 = [(0, 3, [(1, 2)])]" by code_simp
  have c: "get back_rank_king_board 2 1 = Some (PLAYER, True)" by code_simp
  have d: "legal_moves_for back_rank_king_board 2 1 = [(2, 5, [(1, 2), (1, 4)])]" by code_simp
  from chain_search_keeps_initial_king_flag[OF a] b
  have e: "legal_moves_frozen back_rank_board 2 1 = [(0, 3, [(1, 2)])]" by simp
  from a b c d e show ?thesis by simp
qed

section \<open>Play from the initial layout\<close>

lemma recursive_captures_parity:
  "m \<in> set (recursive_captures b r c) \<Longrightarrow> (fst m + fst (snd m)) mod 2 = (r + c) mod 2"
proof (induction b r c arbitrary: m rule: recursive_captures.induct)
  case (1 b r c)
  from recursive_captures_mem[OF "1.prems"] obtain p cap where p: "get b r c = Some p"
    and cap: "cap \<in> set (jump_captures b (fst p) r c (directions (fst p) (snd p)))"
    and m: "m \<in> set (chains_of (recursive_captures (simulate b r c cap) (fst cap) (fst (snd cap))) cap)"
    by blast
  from jump_captures_mem[OF cap] obtain dr dc where
    d: "(dr, dc) \<in> set (directions (fst p) (snd p))"
    and c: "cap = (r + dr + dr, c + dc + dc, [(r + dr, c + dc)])"
    by blast
  have par: "(fst cap + fst (snd cap)) mod 2 = (r + c) mod 2"
    unfolding c by simp presburger
  show ?case
  proof (cases "recursive_captures (simulate b r c cap) (fst cap) (fst (snd cap)) = []")
    case True
    with m have "m = cap" by (simp add: chains_of_def)
    with par show ?thesis by simp
  next
    case False
    with m obtain extra where
      ex: "extra \<in> set (recursive_captures (simulate b r c cap) (fst cap) (fst (snd cap)))"
      and me: "m = (fst extra, fst (snd extra), snd (snd cap) @ snd (snd extra))"
      by (auto simp: chains_of_def)
    from "1.IH"[OF p cap ex] par show ?thesis unfolding me by simp
  qed
qed

lemma legal_moves_parity:
  assumes "m \<in> set (legal_moves_for b r c)"
  shows "(fst m + fst (snd m)) mod 2 = (r + c) mod 2 \<and> get b r c \<noteq> None"
proof -
  from assms obtain p where p: "get b r c = Some p"
    by (cases "get b r c") (auto simp: legal_moves_for_def)
  from assms consider "m \<in> set (recursive_captures b r c)"
    | "m \<in> set (simple_moves b r c (directions (fst p) (snd p)))"
    unfolding legal_moves_for_via_search[OF p] by (auto split: if_splits)
  then have "(fst m + fst (snd m)) mod 2 = (r + c) mod 2"
  proof cases
    case 1
    then show ?thesis by (rule recursive_captures_parity)
  next
    case 2
    from simple_moves_mem[OF 2] obtain dr dc where
      d: "(dr, dc) \<in> set (directions (fst p) (snd p))" and m: "m = (r + dr, c + dc, [])"
      by blast
    from directions_unit[OF d] show ?thesis unfolding m by auto
  qed
  with p show ?thesis by simp
qed

lemma dark_only_setup: "dark_only setup_board"
  by (simp add: dark_only_def get_def setup_board_def)

lemma apply_move_dark_only:
  assumes dark: "dark_only b"
    and legal: "(to_r, to_c, captured) \<in> set (legal_moves_for b r c)"
    and app: "apply_move b r c to_r to_c captured = Inr b'"
  shows "dark_only b'"
proof -
  from legal_moves_parity[OF legal] dark
  have dest: "(to_r + to_c) mod 2 = 1" by (simp add: dark_only_def)
  from apply_move_get[OF app] obtain q where
    g: "\<And>x y. get b' x y =
       (if in_bounds to_r to_c \<and> (x, y) = (to_r, to_c)
           \<and> ((fst q = PLAYER \<and> to_r = 0) \<or> (fst q = BOT \<and> to_r = ROWS - 1))
          then Some (fst q, True)
        else if (x, y) \<in> set captured \<or> (x, y) = (r, c) then None
        else if in_bounds to_r to_c \<and> (x, y) = (to_r, to_c) then Some q
        else get b x y)"
    by blast
  show ?thesis
    unfolding dark_only_def
  proof (intro allI impI)
    fix x y assume "get b' x y \<noteq> None"
    then show "(x + y) mod 2 = 1"
      using dest dark unfolding g dark_only_def by (auto split: if_splits)
  qed
qed

lemma play_dark_only:
  "dark_only b \<Longrightarrow> play b ms = Some b' \<Longrightarrow> dark_only b'"
proof (induction ms arbitrary: b)
  case Nil
  then show ?case by simp
next
  case (Cons s ms)
  obtain r c to_r to_c captured where s: "s = (r, c, to_r, to_c, captured)"
    by (cases s) auto
  from Cons.prems(2) obtain b1 where
    legal: "(to_r, to_c, captured) \<in> set (legal_moves_for b r c)"
    and app: "apply_move b r c to_r to_c captured = Inr b1"
    and rest: "play b1 ms = Some b'"
    unfolding s by (auto split: if_splits sum.splits)
  from Cons.IH[OF apply_move_dark_only[OF Cons.prems(1) legal app] rest]
  show ?case .
qed

text \<open>
  C4. From the initial layout, after any sequence of \<^verbatim>\<open>apply_move\<close> calls in which every
  move applied is a member of \<^verbatim>\<open>legal_moves_for\<close> of its source cell, every occupied cell
  \<open>(r, c)\<close> of the board has \<open>r + c\<close> odd.
\<close>

theorem occupied_cells_stay_dark:
  assumes "play setup_board ms = Some b" and "get b r c \<noteq> None"
  shows "(r + c) mod 2 = 1"
  using play_dark_only[OF dark_only_setup assms(1)] assms(2)
  by (simp add: dark_only_def)

theorem occupied_cells_stay_dark_witness:
  "map_option (\<lambda>b. (get b 2 3, get b 3 2, get b 4 1, length (pieces b BOT)))
      (play setup_board opening_steps) = Some (Some (PLAYER, False), None, None, 11)
   \<and> ((2::int) + 3) mod 2 = 1"
proof -
  have a: "map_option (\<lambda>b. (get b 2 3, get b 3 2, get b 4 1, length (pieces b BOT)))
      (play setup_board opening_steps) = Some (Some (PLAYER, False), None, None, 11)"
    by code_simp
  then obtain b where b: "play setup_board opening_steps = Some b"
    and g: "get b 2 3 = Some (PLAYER, False)"
    by auto
  from occupied_cells_stay_dark[OF b, of 2 3] g have "((2::int) + 3) mod 2 = 1" by simp
  with a show ?thesis by simp
qed

section \<open>Mandatory capture is not side-wide\<close>





section \<open>The king flag under \<^verbatim>\<open>apply_move\<close>\<close>

lemma apply_move_follow:
  assumes app: "apply_move b r c to_r to_c captured = Inr b1"
    and fol: "follow pos (r, c, to_r, to_c, captured) = Some pos1"
    and inv: "get b (fst pos) (snd pos) = Some (color, True) \<or> get b (fst pos) (snd pos) = None"
  shows "get b1 (fst pos1) (snd pos1) = Some (color, True) \<or> get b1 (fst pos1) (snd pos1) = None"
proof -
  from apply_move_get[OF app] obtain q where q: "get b r c = Some q" and
    g: "\<And>x y. get b1 x y =
       (if in_bounds to_r to_c \<and> (x, y) = (to_r, to_c)
           \<and> ((fst q = PLAYER \<and> to_r = 0) \<or> (fst q = BOT \<and> to_r = ROWS - 1))
          then Some (fst q, True)
        else if (x, y) \<in> set captured \<or> (x, y) = (r, c) then None
        else if in_bounds to_r to_c \<and> (x, y) = (to_r, to_c) then Some q
        else get b x y)"
    by blast
  show ?thesis
  proof (cases "pos = (r, c)")
    case True
    with q inv have qk: "q = (color, True)" by simp
    from True fol have p1: "pos1 = (to_r, to_c)" by simp
    show ?thesis unfolding p1 g qk by (simp add: get_def)
  next
    case False
    with fol have p1: "pos1 = pos" and nt: "pos \<noteq> (to_r, to_c)" and nc: "pos \<notin> set captured"
      by (auto split: if_splits)
    obtain x y where pos: "pos = (x, y)" by (cases pos)
    from False nt nc inv show ?thesis unfolding p1 pos g by auto
  qed
qed

text \<open>
  C6. Once the piece of a cell is a king, after any sequence of \<^verbatim>\<open>apply_move\<close> calls the
  cell the piece has been moved to never holds a piece with the king flag false: it holds
  the same king, or nothing (a call that names its own source or a captured cell as
  destination, or a destination outside the grid, leaves the cell empty). The flag is
  copied on relocation and promotion only writes \<open>True\<close>.
\<close>

theorem king_flag_never_reverts:
  assumes "get b (fst pos) (snd pos) = Some (color, True)"
    and "trace b pos ms = Some (b', pos')"
  shows "get b' (fst pos') (snd pos') = Some (color, True) \<or> get b' (fst pos') (snd pos') = None"
proof -
  have "get b (fst pos) (snd pos) = Some (color, True) \<or> get b (fst pos) (snd pos) = None
      \<Longrightarrow> trace b pos ms = Some (b', pos')
      \<Longrightarrow> get b' (fst pos') (snd pos') = Some (color, True) \<or> get b' (fst pos') (snd pos') = None"
  proof (induction ms arbitrary: b pos)
    case Nil
    then show ?case by simp
  next
    case (Cons s ms)
    obtain r c to_r to_c captured where s: "s = (r, c, to_r, to_c, captured)"
      by (cases s) auto
    from Cons.prems(2) obtain b1 pos1 where
      app: "apply_move b r c to_r to_c captured = Inr b1"
      and fol: "follow pos (r, c, to_r, to_c, captured) = Some pos1"
      and rest: "trace b1 pos1 ms = Some (b', pos')"
      unfolding s by (auto split: sum.splits option.splits simp del: follow.simps)
    from Cons.IH[OF apply_move_follow[OF app fol Cons.prems(1)] rest]
    show ?case .
  qed
  with assms show ?thesis by simp
qed

theorem king_flag_never_reverts_witness:
  "get king_board 1 2 = Some (PLAYER, True)
   \<and> map_option (\<lambda>(b, pos). (pos, get b (fst pos) (snd pos))) (trace king_board (1, 2) king_steps)
       = Some ((1, 0), Some (PLAYER, True))"
proof -
  have a: "get king_board (fst (1, 2)) (snd (1, 2)) = Some (PLAYER, True)" by code_simp
  have b: "map_option (\<lambda>(b, pos). (pos, get b (fst pos) (snd pos)))
             (trace king_board (1, 2) king_steps) = Some ((1, 0), Some (PLAYER, True))"
    by code_simp
  then obtain b' where t: "trace king_board (1, 2) king_steps = Some (b', (1, 0))"
    by auto
  from king_flag_never_reverts[OF a t] b a show ?thesis by simp
qed

section \<open>The end of the game\<close>

text \<open>
  C7. A board with no Player piece and at least one Bot piece is over with the message
  \<^verbatim>\<open>Bot wins\<close>; a board with no Bot piece and at least one Player piece is over with the
  message \<^verbatim>\<open>Player wins\<close>. Both are the messages of the elimination checks, which come
  first: the side without pieces has no legal move either, and the second holds also when
  no Player piece can move.
\<close>

theorem game_over_elimination:
  "(length (pieces b PLAYER) = 0 \<and> 1 \<le> length (pieces b BOT) \<longrightarrow>
      game_over b = (True, ''Bot wins''))
   \<and> (length (pieces b BOT) = 0 \<and> 1 \<le> length (pieces b PLAYER) \<longrightarrow>
      game_over b = (True, ''Player wins''))"
  by (auto simp: game_over_def Let_def)

theorem game_over_elimination_witness:
  "length (pieces lone_bot_board PLAYER) = 0 \<and> 1 \<le> length (pieces lone_bot_board BOT)
   \<and> game_over lone_bot_board = (True, ''Bot wins'')
   \<and> length (pieces lone_stuck_player_board BOT) = 0
   \<and> 1 \<le> length (pieces lone_stuck_player_board PLAYER)
   \<and> legal_moves_for lone_stuck_player_board 0 1 = []
   \<and> game_over lone_stuck_player_board = (True, ''Player wins'')"
proof -
  have a: "length (pieces lone_bot_board PLAYER) = 0 \<and> 1 \<le> length (pieces lone_bot_board BOT)"
    by code_simp
  have b: "length (pieces lone_stuck_player_board BOT) = 0
           \<and> 1 \<le> length (pieces lone_stuck_player_board PLAYER)"
    by code_simp
  have c: "legal_moves_for lone_stuck_player_board 0 1 = []" by code_simp
  from game_over_elimination[of lone_bot_board] a
  have d: "game_over lone_bot_board = (True, ''Bot wins'')" by blast
  from game_over_elimination[of lone_stuck_player_board] b
  have e: "game_over lone_stuck_player_board = (True, ''Player wins'')" by blast
  from a b c d e show ?thesis by simp
qed

text \<open>
  C8, as stated, fails: on \<open>blocked_board\<close> both sides have pieces and every Bot piece
  has an empty \<^verbatim>\<open>legal_moves_for\<close> result, yet the winner reported is the Bot, because
  the Player's pieces are stuck as well and the Player is examined first.
\<close>

theorem game_over_stalemate_counterexample:
  "pieces blocked_board PLAYER \<noteq> [] \<and> pieces blocked_board BOT \<noteq> []
   \<and> all_stuck blocked_board BOT
   \<and> game_over blocked_board = (True, ''Bot wins (no moves for player)'')"
  by code_simp

text \<open>
  C8, amended. On a board where both sides have a piece: when every Player piece is stuck
  the game is over and the Bot wins (also when the Bot is stuck too); when every Bot piece
  is stuck and some Player piece has a legal move, the game is over and the Player wins.
\<close>

theorem game_over_stalemate:
  assumes "pieces b PLAYER \<noteq> []" and "pieces b BOT \<noteq> []"
  shows "(all_stuck b PLAYER \<longrightarrow> game_over b = (True, ''Bot wins (no moves for player)''))
       \<and> (all_stuck b BOT \<and> \<not> all_stuck b PLAYER \<longrightarrow>
            game_over b = (True, ''Player wins (no moves for bot)''))"
  using assms
  by (auto simp: game_over_def Let_def all_stuck_def list_all_iff list_ex_iff case_prod_beta)

theorem game_over_stalemate_witness:
  "pieces player_stuck_board PLAYER \<noteq> [] \<and> pieces player_stuck_board BOT \<noteq> []
   \<and> all_stuck player_stuck_board PLAYER
   \<and> game_over player_stuck_board = (True, ''Bot wins (no moves for player)'')
   \<and> pieces bot_stuck_board PLAYER \<noteq> [] \<and> pieces bot_stuck_board BOT \<noteq> []
   \<and> all_stuck bot_stuck_board BOT \<and> \<not> all_stuck bot_stuck_board PLAYER
   \<and> game_over bot_stuck_board = (True, ''Player wins (no moves for bot)'')"
proof -
  have a: "pieces player_stuck_board PLAYER \<noteq> []" and b: "pieces player_stuck_board BOT \<noteq> []"
    and c: "all_stuck player_stuck_board PLAYER"
    by code_simp+
  have d: "pieces bot_stuck_board PLAYER \<noteq> []" and e: "pieces bot_stuck_board BOT \<noteq> []"
    and f: "all_stuck bot_stuck_board BOT" and g: "\<not> all_stuck bot_stuck_board PLAYER"
    by code_simp+
  from game_over_stalemate[OF a b] c
  have h: "game_over player_stuck_board = (True, ''Bot wins (no moves for player)'')" by blast
  from game_over_stalemate[OF d e] f g
  have i: "game_over bot_stuck_board = (True, ''Player wins (no moves for bot)'')" by blast
  from a b c d e f g h i show ?thesis by simp
qed

section \<open>The depth of the capture search\<close>

lemma those_map_Some:
  "(\<And>x. x \<in> set xs \<Longrightarrow> g x = Some (f x)) \<Longrightarrow> those (map g xs) = Some (map f xs)"
  by (induction xs) simp_all

lemma recursive_captures_fuel_enough:
  "opponent_count b r c < n \<Longrightarrow> recursive_captures_fuel n b r c = Some (recursive_captures b r c)"
proof (induction n arbitrary: b r c)
  case 0
  then show ?case by simp
next
  case (Suc n)
  show ?case
  proof (cases "get b r c")
    case None
    then show ?thesis by (simp add: recursive_captures.simps[of b r c])
  next
    case (Some p)
    let ?caps = "jump_captures b (fst p) r c (directions (fst p) (snd p))"
    have step: "\<And>cap. cap \<in> set ?caps \<Longrightarrow>
        map_option (\<lambda>more. chains_of more cap)
          (recursive_captures_fuel n (simulate b r c cap) (fst cap) (fst (snd cap)))
        = Some (chains_of (recursive_captures (simulate b r c cap) (fst cap) (fst (snd cap))) cap)"
    proof -
      fix cap assume "cap \<in> set ?caps"
      from simulate_count_less[OF Some this] Suc.prems
      have "opponent_count (simulate b r c cap) (fst cap) (fst (snd cap)) < n" by simp
      from Suc.IH[OF this] show "map_option (\<lambda>more. chains_of more cap)
          (recursive_captures_fuel n (simulate b r c cap) (fst cap) (fst (snd cap)))
        = Some (chains_of (recursive_captures (simulate b r c cap) (fst cap) (fst (snd cap))) cap)"
        by simp
    qed
    show ?thesis
      using Some those_map_Some[of ?caps _ "\<lambda>cap. chains_of (recursive_captures (simulate b r c cap) (fst cap) (fst (snd cap))) cap", OF step]
      by (simp add: recursive_captures.simps[of b r c])
  qed
qed

text \<open>
  C9. Move generation returns on every board, and the nesting of
  \<^verbatim>\<open>_recursive_captures\<close> calls under \<^verbatim>\<open>legal_moves_for\<close> never exceeds the number of
  pieces that oppose the piece of the cell: allowed that many nested calls (or more), the
  counted search returns, and returns what \<^verbatim>\<open>legal_moves_for\<close> does. Each recursive call
  runs on a clone with fewer opposing pieces (\<open>simulate_count_less\<close>).
\<close>

theorem capture_search_depth_bounded:
  assumes "opponent_count b r c \<le> n"
  shows "legal_moves_for_fuel n b r c = Some (legal_moves_for b r c)"
proof (cases "get b r c")
  case None
  then show ?thesis by (simp add: legal_moves_for_fuel_def legal_moves_for_def)
next
  case (Some p)
  let ?caps = "first_captures b (fst p) r c (directions (fst p) (snd p))"
  have step: "\<And>cap. cap \<in> set ?caps \<Longrightarrow>
      map_option (\<lambda>more. chains_of more cap)
        (recursive_captures_fuel n (simulate b r c cap) (fst cap) (fst (snd cap)))
      = Some (chains_of (recursive_captures (simulate b r c cap) (fst cap) (fst (snd cap))) cap)"
  proof -
    fix cap assume "cap \<in> set ?caps"
    then have "cap \<in> set (jump_captures b (fst p) r c (directions (fst p) (snd p)))"
      by (simp add: first_captures_eq_jump_captures)
    from simulate_count_less[OF Some this] assms
    have "opponent_count (simulate b r c cap) (fst cap) (fst (snd cap)) < n" by simp
    from recursive_captures_fuel_enough[OF this]
    show "map_option (\<lambda>more. chains_of more cap)
        (recursive_captures_fuel n (simulate b r c cap) (fst cap) (fst (snd cap)))
      = Some (chains_of (recursive_captures (simulate b r c cap) (fst cap) (fst (snd cap))) cap)"
      by simp
  qed
  show ?thesis
    using Some those_map_Some[of ?caps _ "\<lambda>cap. chains_of (recursive_captures (simulate b r c cap) (fst cap) (fst (snd cap))) cap", OF step]
    by (simp add: legal_moves_for_fuel_def legal_moves_for_def Let_def)
qed

theorem capture_search_depth_bounded_witness:
  "opponent_count double_jump_board 7 0 = 2
   \<and> legal_moves_for_fuel 2 double_jump_board 7 0 = Some [(3, 4, [(6, 1), (4, 3)])]
   \<and> legal_moves_for double_jump_board 7 0 = [(3, 4, [(6, 1), (4, 3)])]
   \<and> legal_moves_for_fuel 1 double_jump_board 7 0 = None"
proof -
  have a: "opponent_count double_jump_board 7 0 = 2" by code_simp
  have b: "legal_moves_for double_jump_board 7 0 = [(3, 4, [(6, 1), (4, 3)])]" by code_simp
  have c: "legal_moves_for_fuel 1 double_jump_board 7 0 = None" by code_simp
  from capture_search_depth_bounded[of double_jump_board 7 0 2] a b
  have d: "legal_moves_for_fuel 2 double_jump_board 7 0 = Some [(3, 4, [(6, 1), (4, 3)])]" by simp
  from a b c d show ?thesis by simp
qed

section \<open>Writes outside the grid\<close>

text \<open>
  C10. For every board and every coordinate pair outside the grid, \<^verbatim>\<open>set\<close> and
  \<^verbatim>\<open>remove\<close> return the board they were given: no cell changes and nothing is raised,
  as \<^verbatim>\<open>get\<close> answers \<^verbatim>\<open>None\<close> there.
\<close>

theorem out_of_bounds_write_is_noop:
  "\<not> in_bounds r c \<Longrightarrow>
     set_cell b r c v = b \<and> remove b r c = b \<and> get b r c = None
     \<and> (\<forall>x y. get (set_cell b r c v) x y = get b x y \<and> get (remove b r c) x y = get b x y)"
  by (simp add: set_cell_def remove_def get_def)

theorem out_of_bounds_write_is_noop_witness:
  "\<not> in_bounds 8 1 \<and> set_cell setup_board 8 1 (Some (PLAYER, True)) = setup_board
   \<and> remove setup_board 8 1 = setup_board
   \<and> \<not> in_bounds 2 (-1) \<and> set_cell setup_board 2 (-1) (Some (BOT, False)) = setup_board
   \<and> remove setup_board 2 (-1) = setup_board"
proof -
  have a: "\<not> in_bounds 8 1" and b: "\<not> in_bounds 2 (-1)"
    by (simp_all add: in_bounds_def ROWS_def COLS_def)
  from out_of_bounds_write_is_noop[OF a] out_of_bounds_write_is_noop[OF b] a b
  show ?thesis by simp
qed

end
